theory Spec2Isabelle
  imports Main "HOL-Library.Sublist"
begin

section \<open>Strings of the changelog service\<close>

text \<open>
  The service (\<^verbatim>\<open>src/services/changelogService.ts\<close>) works on JavaScript strings, which
  are sequences of UTF-16 code units. A code unit is modelled as a natural number and a
  string as a list of them, so that the characters beyond ASCII that occur in the source
  (the class of the date pattern) and in its inputs (an en-dash, U+2013 = 8211) are single
  elements, as they are for the regular-expression engine. \<open>js\<close> turns an ASCII literal
  into such a string.
\<close>

type_synonym codeunit = nat
type_synonym jstring = "codeunit list"

definition js :: "string \<Rightarrow> jstring" where
  "js s = map of_char s"

text \<open>
  The white space of \<^verbatim>\<open>\s\<close> and of \<^verbatim>\<open>String.prototype.trim\<close>: the WhiteSpace and
  LineTerminator code points of ECMAScript.
\<close>

definition isSpace :: "codeunit \<Rightarrow> bool" where
  "isSpace c \<longleftrightarrow>
     c = 9 \<or> c = 10 \<or> c = 11 \<or> c = 12 \<or> c = 13 \<or> c = 32 \<or> c = 160 \<or> c = 5760 \<or>
     (8192 \<le> c \<and> c \<le> 8202) \<or> c = 8232 \<or> c = 8233 \<or> c = 8239 \<or> c = 8287 \<or>
     c = 12288 \<or> c = 65279"

text \<open>\<^verbatim>\<open>\d\<close> is \<^verbatim>\<open>[0-9]\<close> and \<^verbatim>\<open>\w\<close> is \<^verbatim>\<open>[A-Za-z0-9_]\<close> (no \<^verbatim>\<open>u\<close> or \<^verbatim>\<open>i\<close> flag).\<close>

definition isDigit :: "codeunit \<Rightarrow> bool" where
  "isDigit c \<longleftrightarrow> 48 \<le> c \<and> c \<le> 57"

definition isUpper :: "codeunit \<Rightarrow> bool" where
  "isUpper c \<longleftrightarrow> 65 \<le> c \<and> c \<le> 90"

definition isLower :: "codeunit \<Rightarrow> bool" where
  "isLower c \<longleftrightarrow> 97 \<le> c \<and> c \<le> 122"

definition isWord :: "codeunit \<Rightarrow> bool" where
  "isWord c \<longleftrightarrow> isLower c \<or> isUpper c \<or> isDigit c \<or> c = 95"

text \<open>
  \<^verbatim>\<open>toLowerCase\<close>: the letters A to Z move to a to z. The Unicode case table is part of
  the runtime, not of the repository; of the code units beyond ASCII only the two whose
  lower case contains an ASCII letter are modelled (U+212A KELVIN SIGN gives \<^verbatim>\<open>k\<close>,
  U+0130 gives \<^verbatim>\<open>i\<close> followed by U+0307), the others are left as they are, which is all
  that a search for ASCII words can observe.
\<close>

definition lowerUnit :: "codeunit \<Rightarrow> jstring" where
  "lowerUnit c =
     (if isUpper c then [c + 32]
      else if c = 8490 then [107]
      else if c = 304 then [105, 775]
      else [c])"

definition toLowerCase :: "jstring \<Rightarrow> jstring" where
  "toLowerCase s = concat (map lowerUnit s)"

text \<open>\<^verbatim>\<open>startsWith\<close>, \<^verbatim>\<open>includes\<close> (here \<open>includes_js\<close>), \<^verbatim>\<open>trim\<close> and \<^verbatim>\<open>split('\n')\<close>.\<close>

fun startsWith :: "jstring \<Rightarrow> jstring \<Rightarrow> bool" where
  "startsWith s [] = True"
| "startsWith [] (p # ps) = False"
| "startsWith (c # s) (p # ps) = (c = p \<and> startsWith s ps)"

fun includes_js :: "jstring \<Rightarrow> jstring \<Rightarrow> bool" where
  "includes_js [] w = (w = [])"
| "includes_js (c # s) w = (startsWith (c # s) w \<or> includes_js s w)"

definition trim :: "jstring \<Rightarrow> jstring" where
  "trim s = rev (dropWhile isSpace (rev (dropWhile isSpace s)))"

fun split_nl :: "jstring \<Rightarrow> jstring list" where
  "split_nl [] = [[]]"
| "split_nl (c # s) =
     (if c = 10 then [] # split_nl s
      else (case split_nl s of l # ls \<Rightarrow> (c # l) # ls | [] \<Rightarrow> [[c]]))"

text \<open>\<open>index0 xs\<close> is \<^verbatim>\<open>xs[0]\<close>: the first element, \<open>None\<close> (\<^verbatim>\<open>undefined\<close>) for an empty array.\<close>

definition index0 :: "'a list \<Rightarrow> 'a option" where
  "index0 xs = (case xs of [] \<Rightarrow> None | x # _ \<Rightarrow> Some x)"

text \<open>
  \<open>orElse v d\<close> is \<^verbatim>\<open>v || d\<close> for a \<open>v\<close> that is a string or \<^verbatim>\<open>undefined\<close>: \<open>d\<close> replaces
  the two falsy values, \<^verbatim>\<open>undefined\<close> and the empty string.
\<close>

definition orElse :: "jstring option \<Rightarrow> jstring \<Rightarrow> jstring" where
  "orElse v d = (case v of None \<Rightarrow> d | Some t \<Rightarrow> if t = [] then d else t)"

section \<open>The kinds of change\<close>

datatype kind = Breaking | Removal | Fix | Feature | Other

section \<open>categorizeItem\<close>

definition categorizeItem :: "jstring \<Rightarrow> kind" where
  "categorizeItem content =
     (let lowerContent = toLowerCase content in
      if includes_js lowerContent (js ''breaking'') \<or>
         includes_js lowerContent (js ''removed'') \<and> includes_js lowerContent (js ''support'')
      then Breaking
      else if includes_js lowerContent (js ''removed'') \<or> includes_js lowerContent (js ''deprecated'') \<or>
              includes_js lowerContent (js ''no longer'')
      then Removal
      else if includes_js lowerContent (js ''fix'') \<or> includes_js lowerContent (js ''fixed'') \<or>
              includes_js lowerContent (js ''bug'') \<or> includes_js lowerContent (js ''issue'')
      then Fix
      else if includes_js lowerContent (js ''add'') \<or> includes_js lowerContent (js ''new'') \<or>
              includes_js lowerContent (js ''feature'') \<or> includes_js lowerContent (js ''support'')
      then Feature
      else Other)"

section \<open>Parsed versions\<close>

record ChangelogItem =
  type :: kind
  content :: jstring

record ChangelogVersion =
  version :: jstring
  date :: jstring
  items :: "ChangelogItem list"
  sourceId :: "jstring option"
  sourceName :: "jstring option"

section \<open>Regular expressions\<close>

text \<open>
  The three patterns of \<^verbatim>\<open>parseChangelog\<close> are built from character classes with a
  greedy bounded repetition (\<^verbatim>\<open>\d+\<close>, \<^verbatim>\<open>#{1,2}\<close>, \<^verbatim>\<open>\[?\<close>), sequence, alternation, an
  optional group and the end anchor. \<open>ms r s\<close> lists what is left of \<open>s\<close> after each
  way \<open>r\<close> can match at its start, in the order in which a backtracking engine tries
  them: the longest repetition first, the left alternative first, the optional group
  present first. The first element of the list for a whole pattern is the match that
  \<^verbatim>\<open>String.prototype.match\<close> reports.
\<close>

datatype rx =
    Rep "codeunit \<Rightarrow> bool" nat "nat option"
  | Seq rx rx
  | Alt rx rx
  | Opt rx
  | EndOfInput

definition greedy :: "(codeunit \<Rightarrow> bool) \<Rightarrow> nat \<Rightarrow> nat option \<Rightarrow> jstring \<Rightarrow> jstring list" where
  "greedy p lo hi s =
     (let n = length (takeWhile p s);
          m = (case hi of None \<Rightarrow> n | Some h \<Rightarrow> min h n)
      in map (\<lambda>k. drop k s) (rev [lo..<Suc m]))"

fun ms :: "rx \<Rightarrow> jstring \<Rightarrow> jstring list" where
  "ms (Rep p lo hi) s = greedy p lo hi s"
| "ms (Seq a b) s = concat (map (ms b) (ms a s))"
| "ms (Alt a b) s = ms a s @ ms b s"
| "ms (Opt a) s = ms a s @ [s]"
| "ms EndOfInput s = (if s = [] then [[]] else [])"

abbreviation Chr :: "codeunit \<Rightarrow> rx" where
  "Chr c \<equiv> Rep (\<lambda>x. x = c) 1 (Some 1)"

abbreviation Plus :: "(codeunit \<Rightarrow> bool) \<Rightarrow> rx" where
  "Plus p \<equiv> Rep p 1 None"

abbreviation Star :: "(codeunit \<Rightarrow> bool) \<Rightarrow> rx" where
  "Star p \<equiv> Rep p 0 None"

abbreviation Times :: "(codeunit \<Rightarrow> bool) \<Rightarrow> nat \<Rightarrow> rx" where
  "Times p n \<equiv> Rep p n (Some n)"

abbreviation Nothing :: rx where
  "Nothing \<equiv> Rep (\<lambda>c. False) 0 (Some 0)"

text \<open>
  A pattern with one capture group is given as what stands before the group, the group
  and what stands after it. \<open>exec1\<close> matches at the start of the string and returns the
  text of group 1 in the first successful match; \<open>search\<close> moves the start through the
  string from left to right, as an unanchored pattern does.
\<close>

definition exec1 :: "rx \<Rightarrow> rx \<Rightarrow> rx \<Rightarrow> jstring \<Rightarrow> jstring option" where
  "exec1 pre grp post s =
     index0 (concat (map (\<lambda>r1. concat (map (\<lambda>r2. map (\<lambda>r3. take (length r1 - length r2) r1)
                                                      (ms post r2))
                                           (ms grp r1)))
                         (ms pre s)))"

fun search :: "(jstring \<Rightarrow> 'a option) \<Rightarrow> jstring \<Rightarrow> 'a option" where
  "search m [] = m []"
| "search m (c # s) = (case m (c # s) of Some g \<Rightarrow> Some g | None \<Rightarrow> search m s)"

section \<open>parseChangelog\<close>

text \<open>
  \<^verbatim>\<open>/^#{1,2}\s+\[?(\d+\.\d+\.\d+(?:-[a-zA-Z0-9.]+)?)\]?/\<close>, the version header. The value is
  group 1 of the match, \<open>None\<close> when the line does not match.
\<close>

definition isTagChar :: "codeunit \<Rightarrow> bool" where
  "isTagChar c \<longleftrightarrow> isLower c \<or> isUpper c \<or> isDigit c \<or> c = 46"

abbreviation versionPre :: rx where
  "versionPre \<equiv> Seq (Rep (\<lambda>c. c = 35) 1 (Some 2)) (Seq (Plus isSpace) (Rep (\<lambda>c. c = 91) 0 (Some 1)))"

abbreviation versionGrp :: rx where
  "versionGrp \<equiv> Seq (Plus isDigit) (Seq (Chr 46) (Seq (Plus isDigit) (Seq (Chr 46) (Seq (Plus isDigit)
              (Opt (Seq (Chr 45) (Plus isTagChar)))))))"

definition versionMatch :: "jstring \<Rightarrow> jstring option" where
  "versionMatch line = exec1 versionPre versionGrp (Rep (\<lambda>c. c = 93) 0 (Some 1)) line"

text \<open>\<^verbatim>\<open>/\((\d{4}-\d{2}-\d{2})\)\s*$/\<close>, a date in parentheses at the end of the line.\<close>

abbreviation isoDate :: rx where
  "isoDate \<equiv> Seq (Times isDigit 4) (Seq (Chr 45) (Seq (Times isDigit 2) (Seq (Chr 45) (Times isDigit 2))))"

definition dateInParensMatch :: "jstring \<Rightarrow> jstring option" where
  "dateInParensMatch line =
     search (exec1 (Chr 40) isoDate (Seq (Chr 41) (Seq (Star isSpace) EndOfInput))) line"

text \<open>
  The date after a dash. The class that opens the pattern holds, in the source file, the
  four characters \<^verbatim>\<open>-\<close> (45), U+00E2 (226), U+20AC (8364) and U+201C (8220): the last
  three are what the bytes of an en-dash (U+2013) look like when read as Windows-1252.
  The group is \<^verbatim>\<open>(\d{4}-\d{2}-\d{2}|\w+\s+\d+,?\s*\d{4})\<close>.
\<close>

definition isDashClass :: "codeunit \<Rightarrow> bool" where
  "isDashClass c \<longleftrightarrow> c = 45 \<or> c = 226 \<or> c = 8364 \<or> c = 8220"

abbreviation monthDate :: rx where
  "monthDate \<equiv> Seq (Plus isWord) (Seq (Plus isSpace) (Seq (Plus isDigit)
                           (Seq (Rep (\<lambda>c. c = 44) 0 (Some 1)) (Seq (Star isSpace) (Times isDigit 4)))))"

definition dateAfterDashMatch :: "jstring \<Rightarrow> jstring option" where
  "dateAfterDashMatch line =
     search (exec1 (Seq (Rep isDashClass 1 (Some 1)) (Star isSpace)) (Alt isoDate monthDate) Nothing) line"

text \<open>
  The date of a header line, as the body of the loop computes it: the variable \<^verbatim>\<open>date\<close>
  starts empty and is set by the first of the two patterns that matches; when it is
  still empty (\<^verbatim>\<open>!date\<close>) and the table \<^verbatim>\<open>releaseDates\<close> was passed, it becomes
  \<^verbatim>\<open>releaseDates[versionNumber] || ''\<close>.
\<close>

definition headerDate :: "jstring \<Rightarrow> jstring \<Rightarrow> (jstring \<rightharpoonup> jstring) option \<Rightarrow> jstring" where
  "headerDate line versionNumber releaseDates =
     (let date1 = (case dateInParensMatch line of
                     Some g \<Rightarrow> g
                   | None \<Rightarrow> (case dateAfterDashMatch line of
                                Some g \<Rightarrow> trim g
                              | None \<Rightarrow> []))
      in case releaseDates of
           Some table \<Rightarrow> if date1 = [] then orElse (table versionNumber) [] else date1
         | None \<Rightarrow> date1)"

definition isBullet :: "jstring \<Rightarrow> bool" where
  "isBullet line \<longleftrightarrow> startsWith line (js ''- '') \<or> startsWith line (js ''* '')"

definition mkItem :: "jstring \<Rightarrow> ChangelogItem" where
  "mkItem line = (let c = trim (drop 2 line) in \<lparr>type = categorizeItem c, content = c\<rparr>)"

text \<open>
  The loop over the lines, with its two variables \<^verbatim>\<open>versions\<close> and \<^verbatim>\<open>currentVersion\<close>
  passed along; the last equation is the push after the loop.
\<close>

fun parseLines ::
  "jstring option \<Rightarrow> jstring option \<Rightarrow> (jstring \<rightharpoonup> jstring) option \<Rightarrow>
   jstring list \<Rightarrow> ChangelogVersion list \<Rightarrow> ChangelogVersion option \<Rightarrow> ChangelogVersion list" where
  "parseLines sid sname rd [] versions None = versions"
| "parseLines sid sname rd [] versions (Some cur) = versions @ [cur]"
| "parseLines sid sname rd (line # lines) versions currentVersion =
     (case versionMatch line of
        Some versionNumber \<Rightarrow>
          parseLines sid sname rd lines
            (case currentVersion of None \<Rightarrow> versions | Some cur \<Rightarrow> versions @ [cur])
            (Some \<lparr>version = versionNumber, date = headerDate line versionNumber rd, items = [],
                   sourceId = sid, sourceName = sname\<rparr>)
      | None \<Rightarrow>
          (case currentVersion of
             Some cur \<Rightarrow>
               if isBullet line
               then parseLines sid sname rd lines versions (Some (cur\<lparr>items := items cur @ [mkItem line]\<rparr>))
               else parseLines sid sname rd lines versions currentVersion
           | None \<Rightarrow> parseLines sid sname rd lines versions currentVersion))"

definition parseChangelog ::
  "jstring \<Rightarrow> jstring option \<Rightarrow> jstring option \<Rightarrow> (jstring \<rightharpoonup> jstring) option \<Rightarrow> ChangelogVersion list" where
  "parseChangelog markdown sid sname rd = parseLines sid sname rd (split_nl markdown) [] None"

section \<open>getLatestVersion\<close>

text \<open>
  \<^verbatim>\<open>versions[0]?.version || 'Unknown'\<close>. Reading index 0 of an empty array gives
  \<^verbatim>\<open>undefined\<close> (\<open>None\<close>), which the optional chain passes on to \<^verbatim>\<open>||\<close>.
\<close>

definition getLatestVersion :: "ChangelogVersion list \<Rightarrow> jstring" where
  "getLatestVersion versions = orElse (map_option version (index0 versions)) (js ''Unknown'')"

section \<open>fetchWithRetry\<close>

text \<open>
  A call of \<^verbatim>\<open>fetch\<close> either rejects (a transport error) or resolves to a response;
  \<^verbatim>\<open>response.ok\<close> holds for the statuses 200 to 299. The network is a function from the
  number of the call to what that call settles to. What the function does besides
  returning (the calls of \<^verbatim>\<open>fetch\<close> and the timers it waits for, in milliseconds) is
  kept in a log.
\<close>

record 'b Response =
  status :: nat
  body :: 'b

definition ok :: "'b Response \<Rightarrow> bool" where
  "ok response \<longleftrightarrow> 200 \<le> status response \<and> status response \<le> 299"

datatype ('e, 'b) settled = Rejected 'e | Resolved "'b Response"







section \<open>fetchAllActiveChangelogs\<close>

text \<open>
  Of a source the function reads \<^verbatim>\<open>id\<close>, \<^verbatim>\<open>name\<close> and \<^verbatim>\<open>is_active\<close>. The body of a
  changelog response is what \<^verbatim>\<open>response.json()\<close> gives: a rejection when the text is not
  JSON, \<^verbatim>\<open>null\<close> (reading \<^verbatim>\<open>.markdown\<close> of it throws), or a value whose \<^verbatim>\<open>markdown\<close>
  property is kept as it is.
\<close>

record ChangelogSource =
  id_src :: jstring
  name :: jstring
  is_active :: bool

datatype 'm json = BadJson | JsonNull | JsonData 'm

record 'm FetchedChangelog =
  fetchedId :: jstring
  fetchedName :: jstring
  markdown :: 'm

text \<open>
  The callback passed to \<^verbatim>\<open>map\<close>, from the reply to its request on: the value its
  promise is fulfilled with, \<open>None\<close> for \<^verbatim>\<open>null\<close>. It never rejects, every throw is
  caught.
\<close>

definition fetchOne :: "('e, 'm json) settled \<Rightarrow> ChangelogSource \<Rightarrow> 'm FetchedChangelog option" where
  "fetchOne reply source =
     (case reply of
        Rejected e \<Rightarrow> None
      | Resolved response \<Rightarrow>
          if \<not> ok response then None
          else (case body response of
                  BadJson \<Rightarrow> None
                | JsonNull \<Rightarrow> None
                | JsonData m \<Rightarrow>
                    Some \<lparr>fetchedId = id_src source, fetchedName = name source, markdown = m\<rparr>))"

text \<open>
  \<^verbatim>\<open>activeSources.map(async (source) => ...)\<close> calls the callback for each source in turn,
  and each call runs until its first \<^verbatim>\<open>await\<close>, that is, it issues its request and
  returns a pending promise. The callbacks go on when their replies arrive, in an order
  that the network decides: the schedule, a list of positions in \<^verbatim>\<open>activeSources\<close>. The
  network \<open>net k\<close> is the reply to the request of the source at position \<open>k\<close>.
  \<^verbatim>\<open>Promise.allSettled\<close> is fulfilled once every promise is, with the values in the
  order of the sources (no promise is rejected, so the filter on \<^verbatim>\<open>'fulfilled'\<close> keeps all
  of them), and the last filter drops the \<^verbatim>\<open>null\<close>s; until every promise is fulfilled
  the function has not returned (\<open>None\<close>). The list of sources is what \<^verbatim>\<open>fetchSources\<close>
  resolved to.
\<close>

datatype event = Requested jstring | Settled jstring

datatype 'r task = Pending ChangelogSource | Fulfilled 'r

definition spawn :: "ChangelogSource list \<Rightarrow> event list \<times> 'r task list" where
  "spawn activeSources = (map (\<lambda>s. Requested (id_src s)) activeSources, map Pending activeSources)"

definition deliver ::
  "(nat \<Rightarrow> ('e, 'm json) settled) \<Rightarrow> event list \<times> 'm FetchedChangelog option task list \<Rightarrow> nat \<Rightarrow>
   event list \<times> 'm FetchedChangelog option task list" where
  "deliver net st k =
     (case st of (trace, tasks) \<Rightarrow>
        if k < length tasks then
          (case tasks ! k of
             Pending source \<Rightarrow>
               (trace @ [Settled (id_src source)], tasks[k := Fulfilled (fetchOne (net k) source)])
           | Fulfilled r \<Rightarrow> (trace, tasks))
        else (trace, tasks))"

fun fulfilled :: "'r task list \<Rightarrow> 'r list option" where
  "fulfilled [] = Some []"
| "fulfilled (Pending source # ts) = None"
| "fulfilled (Fulfilled r # ts) = map_option ((#) r) (fulfilled ts)"

definition fetchAllActiveChangelogs ::
  "ChangelogSource list \<Rightarrow> (nat \<Rightarrow> ('e, 'm json) settled) \<Rightarrow> nat list \<Rightarrow>
   event list \<times> 'm FetchedChangelog list option" where
  "fetchAllActiveChangelogs sources net schedule =
     (let activeSources = filter is_active sources;
          (trace, tasks) = foldl (deliver net) (spawn activeSources) schedule
      in (trace, map_option (List.map_filter (\<lambda>r. r)) (fulfilled tasks)))"

section \<open>The monitor sweep\<close>










section \<open>What the specification says\<close>

text \<open>
  The notions below are written from the words of the specification, not from the code;
  the theorems compare them with the functions above.

  \<open>accepts r u t\<close> reads a pattern as a description of texts, without any order of
  search: the pattern \<open>r\<close> describes the text \<open>u\<close> when \<open>t\<close> follows it (what follows
  matters only to the end anchor).
\<close>

fun accepts :: "rx \<Rightarrow> jstring \<Rightarrow> jstring \<Rightarrow> bool" where
  "accepts (Rep p lo hi) u t =
     (list_all p u \<and> lo \<le> length u \<and> (case hi of None \<Rightarrow> True | Some h \<Rightarrow> length u \<le> h))"
| "accepts (Seq a b) u t = (\<exists>u1 u2. u = u1 @ u2 \<and> accepts a u1 (u2 @ t) \<and> accepts b u2 t)"
| "accepts (Alt a b) u t = (accepts a u t \<or> accepts b u t)"
| "accepts (Opt a) u t = (accepts a u t \<or> u = [])"
| "accepts EndOfInput u t = (u = [] \<and> t = [])"

text \<open>
  \<open>contains t w\<close>: the word \<open>w\<close> occurs in the text \<open>t\<close>. \<open>classify\<close> is the chain of
  five rules of the item categorizer, over the lower-cased text.
\<close>

definition contains :: "jstring \<Rightarrow> jstring \<Rightarrow> bool" where
  "contains t w \<longleftrightarrow> (\<exists>a b. t = a @ w @ b)"

definition classify :: "jstring \<Rightarrow> kind" where
  "classify t =
     (let l = toLowerCase t in
      if contains l (js ''breaking'') \<or> (contains l (js ''removed'') \<and> contains l (js ''support''))
        then Breaking
      else if contains l (js ''removed'') \<or> contains l (js ''deprecated'') \<or> contains l (js ''no longer'')
        then Removal
      else if contains l (js ''fix'') \<or> contains l (js ''fixed'') \<or> contains l (js ''bug'') \<or>
              contains l (js ''issue'')
        then Fix
      else if contains l (js ''add'') \<or> contains l (js ''new'') \<or> contains l (js ''feature'') \<or>
              contains l (js ''support'')
        then Feature
      else Other)"

text \<open>
  The version header of the specification: one or two \<^verbatim>\<open>#\<close>, white space, and a version
  token MAJOR.MINOR.PATCH of three numbers with dots between them, which a \<^verbatim>\<open>-\<close> and a
  pre-release tag of letters, digits and dots may follow; a \<^verbatim>\<open>[\<close> may stand before the
  token and a \<^verbatim>\<open>]\<close> after it. The line starts with the header: anything may follow.
\<close>

definition isNumber :: "jstring \<Rightarrow> bool" where
  "isNumber ds \<longleftrightarrow> ds \<noteq> [] \<and> list_all isDigit ds"

definition isPreRelease :: "jstring \<Rightarrow> bool" where
  "isPreRelease tag \<longleftrightarrow> (\<exists>t. tag = 45 # t \<and> t \<noteq> [] \<and> list_all isTagChar t)"

definition isVersionToken :: "jstring \<Rightarrow> bool" where
  "isVersionToken v \<longleftrightarrow>
     (\<exists>major minor patch tag.
        v = major @ [46] @ minor @ [46] @ patch @ tag \<and>
        isNumber major \<and> isNumber minor \<and> isNumber patch \<and> (tag = [] \<or> isPreRelease tag))"

definition isVersionHeader :: "jstring \<Rightarrow> bool" where
  "isVersionHeader line \<longleftrightarrow>
     (\<exists>hashes ws ob v cb rest.
        line = hashes @ ws @ ob @ v @ cb @ rest \<and>
        (hashes = [35] \<or> hashes = [35, 35]) \<and>
        ws \<noteq> [] \<and> list_all isSpace ws \<and>
        (ob = [] \<or> ob = [91]) \<and>
        isVersionToken v \<and>
        (cb = [] \<or> cb = [93]))"

text \<open>
  A reply to a changelog request succeeds when the request resolves, the status is from
  200 to 299 and the body is JSON other than \<^verbatim>\<open>null\<close>; \<open>succeedsWith\<close> is then its
  \<^verbatim>\<open>markdown\<close>. \<open>isSettled\<close> tells the handling of a reply from the issue of a request.
\<close>

definition succeedsWith :: "('e, 'm json) settled \<Rightarrow> 'm option" where
  "succeedsWith reply =
     (case reply of
        Rejected e \<Rightarrow> None
      | Resolved r \<Rightarrow>
          if 200 \<le> status r \<and> status r \<le> 299
          then (case body r of JsonData m \<Rightarrow> Some m | _ \<Rightarrow> None)
          else None)"

definition isSettled :: "event \<Rightarrow> bool" where
  "isSettled e = (case e of Settled i \<Rightarrow> True | Requested i \<Rightarrow> False)"

text \<open>
  A parsed version is a version that occurs in a result of \<open>parseChangelog\<close>, for some
  document and some optional arguments.
\<close>

definition isParsedVersion :: "ChangelogVersion \<Rightarrow> bool" where
  "isParsedVersion v \<longleftrightarrow> (\<exists>markdown sid sname rd. v \<in> set (parseChangelog markdown sid sname rd))"


section \<open>The matcher finds what the patterns accept\<close>

lemma takeWhile_all_append: "list_all p u \<Longrightarrow> takeWhile p (u @ t) = u @ takeWhile p t"
  by (induction u) auto

lemma all_take_takeWhile: "k \<le> length (takeWhile p s) \<Longrightarrow> list_all p (take k s)"
proof (induction s arbitrary: k)
  case Nil
  then show ?case by simp
next
  case (Cons c s)
  then show ?case by (cases k) (auto split: if_splits)
qed

lemma greedy_iff:
  "t \<in> set (greedy p lo hi s) \<longleftrightarrow>
     (\<exists>u. s = u @ t \<and> list_all p u \<and> lo \<le> length u \<and>
          (case hi of None \<Rightarrow> True | Some h \<Rightarrow> length u \<le> h))"
  (is "?L \<longleftrightarrow> ?R")
proof
  assume ?L
  then obtain k where k: "lo \<le> k" "k \<le> length (takeWhile p s)"
      "case hi of None \<Rightarrow> True | Some h \<Rightarrow> k \<le> h" and t: "t = drop k s"
    by (auto simp: greedy_def Let_def simp del: upt_Suc split: option.splits)
  have ks: "k \<le> length s" using k(2) length_takeWhile_le [of p s] by linarith
  have "s = take k s @ t" using t by simp
  moreover have "list_all p (take k s)" using k(2) by (rule all_take_takeWhile)
  moreover have "length (take k s) = k" using ks by simp
  ultimately show ?R using k(1,3) by (intro exI [of _ "take k s"]) (auto split: option.splits)
next
  assume ?R
  then obtain u where u: "s = u @ t" "list_all p u" "lo \<le> length u"
      "case hi of None \<Rightarrow> True | Some h \<Rightarrow> length u \<le> h" by blast
  have "length u \<le> length (takeWhile p s)"
    using u(1,2) by (simp add: takeWhile_all_append)
  moreover have "t = drop (length u) s" using u(1) by simp
  ultimately show ?L using u(3,4)
    by (auto simp: greedy_def Let_def image_iff simp del: upt_Suc split: option.splits
             intro!: bexI [of _ "length u"])
qed

lemma ms_iff: "t \<in> set (ms r s) \<longleftrightarrow> (\<exists>u. s = u @ t \<and> accepts r u t)"
proof (induction r arbitrary: s t)
  case (Rep p lo hi)
  show ?case by (simp add: greedy_iff)
next
  case (Seq a b)
  show ?case
  proof
    assume "t \<in> set (ms (Seq a b) s)"
    then obtain m where "m \<in> set (ms a s)" "t \<in> set (ms b m)" by auto
    then obtain u1 u2 where "s = u1 @ m" "accepts a u1 m" "m = u2 @ t" "accepts b u2 t"
      using Seq.IH by blast
    then show "\<exists>u. s = u @ t \<and> accepts (Seq a b) u t"
      by (intro exI [of _ "u1 @ u2"]) auto
  next
    assume "\<exists>u. s = u @ t \<and> accepts (Seq a b) u t"
    then obtain u1 u2 where "s = u1 @ u2 @ t" "accepts a u1 (u2 @ t)" "accepts b u2 t" by auto
    then have "u2 @ t \<in> set (ms a s)" "t \<in> set (ms b (u2 @ t))" using Seq.IH by blast+
    then show "t \<in> set (ms (Seq a b) s)" by auto
  qed
next
  case (Alt a b)
  then show ?case by auto
next
  case (Opt a)
  then show ?case by auto
next
  case EndOfInput
  show ?case by auto
qed


lemma index0_SomeD: "index0 xs = Some x \<Longrightarrow> x \<in> set xs"
  by (cases xs) (simp_all add: index0_def)


lemma exec1_SomeD:
  assumes "exec1 pre grp post s = Some g"
  shows "\<exists>r1 \<in> set (ms pre s). \<exists>r2 \<in> set (ms grp r1).
           ms post r2 \<noteq> [] \<and> g = take (length r1 - length r2) r1"
proof -
  from assms obtain r1 r2 r3 where "r1 \<in> set (ms pre s)" "r2 \<in> set (ms grp r1)"
      "r3 \<in> set (ms post r2)" "g = take (length r1 - length r2) r1"
    unfolding exec1_def by (auto dest!: index0_SomeD)
  then show ?thesis by (intro bexI [of _ r1] bexI [of _ r2]) auto
qed

lemma exec1_captures:
  assumes "exec1 pre grp post s = Some g"
  shows "\<exists>u0 t u3 t3. s = u0 @ g @ t \<and> accepts pre u0 (g @ t) \<and> accepts grp g t \<and> t = u3 @ t3 \<and> accepts post u3 t3"
proof -
  from exec1_SomeD [OF assms] obtain r1 r2 where r: "r1 \<in> set (ms pre s)" "r2 \<in> set (ms grp r1)"
    "ms post r2 \<noteq> []" "g = take (length r1 - length r2) r1" by blast
  from r(1) obtain u0 where u0: "s = u0 @ r1" "accepts pre u0 r1" by (auto simp: ms_iff)
  from r(2) obtain u where u: "r1 = u @ r2" "accepts grp u r2" by (auto simp: ms_iff)
  from r(3) obtain t3 where "t3 \<in> set (ms post r2)" by (cases "ms post r2") auto
  then obtain u3 where u3: "r2 = u3 @ t3" "accepts post u3 t3" by (auto simp: ms_iff)
  have "g = u" using r(4) u(1) by simp
  then show ?thesis using u0 u u3 by blast
qed


section \<open>The item categorizer\<close>

lemma startsWith_iff: "startsWith s p \<longleftrightarrow> (\<exists>b. s = p @ b)"
  by (induction s p rule: startsWith.induct) auto

lemma includes_js_iff: "includes_js s w \<longleftrightarrow> contains s w"
proof (induction s)
  case Nil
  show ?case by (auto simp: contains_def)
next
  case (Cons c s)
  have "contains (c # s) w \<longleftrightarrow> (\<exists>b. c # s = w @ b) \<or> contains s w"
  proof
    assume "contains (c # s) w"
    then obtain a b where ab: "c # s = a @ w @ b" by (auto simp: contains_def)
    show "(\<exists>b. c # s = w @ b) \<or> contains s w"
    proof (cases a)
      case Nil
      then show ?thesis using ab by auto
    next
      case (Cons x a')
      then have "s = a' @ w @ b" using ab by simp
      then show ?thesis by (auto simp: contains_def)
    qed
  next
    assume "(\<exists>b. c # s = w @ b) \<or> contains s w"
    then show "contains (c # s) w"
    proof
      assume "\<exists>b. c # s = w @ b"
      then obtain b where "c # s = [] @ w @ b" by auto
      then show ?thesis unfolding contains_def by blast
    next
      assume "contains s w"
      then obtain a b where "s = a @ w @ b" by (auto simp: contains_def)
      then have "c # s = (c # a) @ w @ b" by simp
      then show ?thesis unfolding contains_def by blast
    qed
  qed
  then show ?case using Cons.IH by (simp add: startsWith_iff)
qed

lemmas eval_string = js_def toLowerCase_def lowerUnit_def isUpper_def

text \<open>
  Claim C2. For every text, \<open>categorizeItem\<close> gives the kind that the chain of five
  rules gives on the lower-cased text: breaking when it contains "breaking", or "removed"
  and "support"; else removal for "removed", "deprecated" or "no longer"; else fix for
  "fix", "fixed", "bug" or "issue"; else feature for "add", "new", "feature" or "support";
  else other. "removed support for legacy flag" is breaking, not removal.
\<close>

theorem categorizeItem_precedence:
  "categorizeItem t = classify t \<and>
   categorizeItem (js ''removed support for legacy flag'') = Breaking \<and>
   categorizeItem (js ''removed support for legacy flag'') \<noteq> Removal"
proof -
  have "categorizeItem t = classify t"
    by (simp add: categorizeItem_def classify_def Let_def includes_js_iff cong: if_cong)
  moreover have "categorizeItem (js ''removed support for legacy flag'') = Breaking"
    by (simp add: categorizeItem_def eval_string)
  ultimately show ?thesis by simp
qed

theorem categorizeItem_precedence_witness:
  "classify (js ''Fixed the NEW parser'') = Fix \<and> classify (js ''removed the flag'') = Removal"
proof -
  have "categorizeItem (js ''Fixed the NEW parser'') = Fix"
    by (simp add: categorizeItem_def eval_string)
  moreover have "categorizeItem (js ''removed the flag'') = Removal"
    by (simp add: categorizeItem_def eval_string)
  ultimately show ?thesis
    using categorizeItem_precedence [of "js ''Fixed the NEW parser''"]
          categorizeItem_precedence [of "js ''removed the flag''"] by simp
qed

section \<open>Version headers\<close>

lemma accepts_SeqI:
  "accepts a u1 (u2 @ t) \<Longrightarrow> accepts b u2 t \<Longrightarrow> accepts (Seq a b) (u1 @ u2) t"
  by auto

lemma accepts_Chr [simp]: "accepts (Chr c) u t \<longleftrightarrow> u = [c]"
proof
  assume "accepts (Chr c) u t"
  then have "list_all (\<lambda>x. x = c) u" "length u = 1" by auto
  then show "u = [c]" by (cases u) auto
qed auto

lemma accepts_Plus [simp]: "accepts (Plus p) u t \<longleftrightarrow> u \<noteq> [] \<and> list_all p u"
  by (cases u) auto

lemma accepts_hashes: "accepts (Rep (\<lambda>c. c = 35) 1 (Some 2)) u t \<longleftrightarrow> u = [35] \<or> u = [35, 35]"
proof
  assume a: "accepts (Rep (\<lambda>c. c = 35) 1 (Some 2)) u t"
  then have l: "list_all (\<lambda>x. x = 35) u" "1 \<le> length u" "length u \<le> 2" by auto
  show "u = [35] \<or> u = [35, 35]"
  proof (cases u)
    case Nil
    then show ?thesis using l by simp
  next
    case (Cons x u')
    then show ?thesis using l by (cases u') auto
  qed
qed auto

lemma accepts_opt_char: "accepts (Rep (\<lambda>x. x = c) 0 (Some 1)) u t \<longleftrightarrow> u = [] \<or> u = [c]"
proof
  assume "accepts (Rep (\<lambda>x. x = c) 0 (Some 1)) u t"
  then have "list_all (\<lambda>x. x = c) u" "length u \<le> 1" by auto
  then show "u = [] \<or> u = [c]" by (cases u) auto
qed auto

lemma accepts_versionPre:
  "accepts versionPre u t \<longleftrightarrow>
     (\<exists>hashes ws ob. u = hashes @ ws @ ob \<and> (hashes = [35] \<or> hashes = [35, 35]) \<and>
        ws \<noteq> [] \<and> list_all isSpace ws \<and> (ob = [] \<or> ob = [91]))"
  unfolding accepts.simps(2) accepts_hashes accepts_opt_char accepts_Plus by blast

lemma accepts_versionGrp: "accepts versionGrp u t \<longleftrightarrow> isVersionToken u"
proof -
  have tag: "accepts (Opt (Seq (Chr 45) (Plus isTagChar))) g t' \<longleftrightarrow> g = [] \<or> isPreRelease g" for g t'
    unfolding accepts.simps(2,4) accepts_Chr accepts_Plus isPreRelease_def by auto
  show ?thesis
    unfolding accepts.simps(2) [of "Plus isDigit"] accepts.simps(2) [of "Chr 46"] tag
      accepts_Chr accepts_Plus isVersionToken_def isNumber_def
    by (safe; (simp; blast)?)
qed

lemma versionMatch_Some:
  assumes "versionMatch line = Some v"
  shows "isVersionToken v \<and> isVersionHeader line"
proof -
  from exec1_captures [OF assms [unfolded versionMatch_def]]
  obtain u0 t u3 t3 where d: "line = u0 @ v @ t" "accepts versionPre u0 (v @ t)"
      "accepts versionGrp v t" "t = u3 @ t3" "accepts (Rep (\<lambda>c. c = 93) 0 (Some 1)) u3 t3"
    by blast
  from d(3) have tok: "isVersionToken v" by (simp only: accepts_versionGrp)
  from d(2) obtain hashes ws ob where p: "u0 = hashes @ ws @ ob" "hashes = [35] \<or> hashes = [35, 35]"
      "ws \<noteq> []" "list_all isSpace ws" "ob = [] \<or> ob = [91]"
    unfolding accepts_versionPre by blast
  from d(5) have cb: "u3 = [] \<or> u3 = [93]" by (simp only: accepts_opt_char)
  have "line = hashes @ ws @ ob @ v @ u3 @ t3" using d(1,4) p(1) by simp
  then have "isVersionHeader line" unfolding isVersionHeader_def using p tok cb by blast
  then show ?thesis using tok by simp
qed



lemma isVersionToken_nonempty: "isVersionToken v \<Longrightarrow> v \<noteq> []"
  by (auto simp: isVersionToken_def)



section \<open>The loop over the lines\<close>

lemma split_nl_nonempty: "split_nl s \<noteq> []"
  by (induction s) (auto split: list.splits)

lemma split_nl_sep: "split_nl (a @ 10 # b) = split_nl a @ split_nl b"
proof (induction a)
  case Nil
  show ?case by simp
next
  case (Cons c a)
  obtain l ls where "split_nl a = l # ls" using split_nl_nonempty [of a] by (cases "split_nl a") auto
  then show ?case using Cons.IH by simp
qed

lemma parseLines_versions:
  "map version (parseLines sid sname rd ls vs cur) =
     map version vs @ (case cur of None \<Rightarrow> [] | Some c \<Rightarrow> [version c]) @ List.map_filter versionMatch ls"
proof (induction ls arbitrary: vs cur)
  case Nil
  show ?case by (cases cur) (simp_all add: List.map_filter_simps)
next
  case (Cons l ls)
  show ?case
  proof (cases "versionMatch l")
    case None
    then show ?thesis using Cons.IH by (cases cur) (simp_all add: List.map_filter_simps)
  next
    case (Some v)
    then show ?thesis using Cons.IH by (cases cur) (simp_all add: List.map_filter_simps)
  qed
qed

lemma parseLines_skip_closed:
  "\<forall>l \<in> set pre. versionMatch l = None \<Longrightarrow>
     parseLines sid sname rd (pre @ rest) vs None = parseLines sid sname rd rest vs None"
  by (induction pre) simp_all


lemma parseLines_cong_line:
  assumes "versionMatch x = versionMatch y" "\<And>v. headerDate x v rd = headerDate y v rd"
    "\<not> isBullet x" "\<not> isBullet y"
  shows "parseLines sid sname rd (before @ x # after) vs cur =
         parseLines sid sname rd (before @ y # after) vs cur"
proof (induction before arbitrary: vs cur)
  case Nil
  show ?case using assms by (simp split: option.splits)
next
  case (Cons l before)
  show ?case by (simp add: Cons.IH split: option.splits)
qed

lemmas eval_class = isSpace_def isDigit_def isUpper_def isLower_def isWord_def isTagChar_def
  isDashClass_def
lemmas eval_match = versionMatch_def dateInParensMatch_def dateAfterDashMatch_def exec1_def
  greedy_def index0_def orElse_def headerDate_def trim_def
lemmas eval_parse = parseChangelog_def isBullet_def mkItem_def categorizeItem_def

lemma hash_versionMatch:
  assumes "\<not> startsWith l [35]"
  shows "versionMatch (35 # l) = versionMatch (35 # 35 # l)"
proof -
  have "ms versionPre (35 # l) = ms versionPre (35 # 35 # l)"
    using assms by (cases l) (simp_all add: greedy_def isSpace_def)
  then show ?thesis by (simp only: versionMatch_def exec1_def)
qed

lemma hash_headerDate: "headerDate (35 # l) v rd = headerDate l v rd"
proof -
  have "dateInParensMatch (35 # l) = dateInParensMatch l"
    by (simp add: dateInParensMatch_def exec1_def greedy_def index0_def)
  moreover have "dateAfterDashMatch (35 # l) = dateAfterDashMatch l"
    by (simp add: dateAfterDashMatch_def exec1_def greedy_def index0_def isDashClass_def)
  ultimately show ?thesis unfolding headerDate_def by (simp only:)
qed

lemma hash_not_bullet: "\<not> isBullet (35 # l)"
  by (simp add: isBullet_def js_def)

lemma hash_lines:
  assumes "\<not> startsWith l [35]"
  shows "parseLines sid sname rd (before @ (35 # l) # after) vs cur =
         parseLines sid sname rd (before @ (35 # 35 # l) # after) vs cur"
  by (rule parseLines_cong_line)
     (simp_all add: hash_versionMatch [OF assms] hash_headerDate hash_not_bullet)

lemma split_nl_hash:
  assumes "\<not> startsWith r [35]"
  shows "\<exists>l ls. \<not> startsWith l [35] \<and> split_nl (35 # r) = (35 # l) # ls \<and>
           split_nl (35 # 35 # r) = (35 # 35 # l) # ls"
proof -
  obtain l ls where s: "split_nl r = l # ls" using split_nl_nonempty [of r] by (cases "split_nl r") auto
  have "\<not> startsWith l [35]"
  proof (cases r)
    case Nil
    then show ?thesis using s by simp
  next
    case (Cons c r')
    obtain l' ls' where "split_nl r' = l' # ls'"
      using split_nl_nonempty [of r'] by (cases "split_nl r'") auto
    then show ?thesis using s assms Cons by (auto split: if_splits)
  qed
  then show ?thesis using s by simp
qed

lemma hash_document:
  assumes "\<not> startsWith r [35]"
  shows "parseChangelog (35 # r) sid sname rd = parseChangelog (35 # 35 # r) sid sname rd"
    and "parseChangelog (a @ 10 # 35 # r) sid sname rd = parseChangelog (a @ 10 # 35 # 35 # r) sid sname rd"
proof -
  from split_nl_hash [OF assms] obtain l ls where l: "\<not> startsWith l [35]"
    "split_nl (35 # r) = (35 # l) # ls" "split_nl (35 # 35 # r) = (35 # 35 # l) # ls" by blast
  show "parseChangelog (35 # r) sid sname rd = parseChangelog (35 # 35 # r) sid sname rd"
    unfolding parseChangelog_def l(2,3) using hash_lines [OF l(1), of sid sname rd "[]"] by simp
  show "parseChangelog (a @ 10 # 35 # r) sid sname rd = parseChangelog (a @ 10 # 35 # 35 # r) sid sname rd"
    unfolding parseChangelog_def split_nl_sep l(2,3) by (rule hash_lines [OF l(1)])
qed

text \<open>
  Claim C1. For every Markdown document \<open>parseChangelog\<close> returns one parsed version for
  each line that matches the version-header pattern, in the order of the lines: the
  versions of the result are the versions captured in the header lines, top to bottom. A
  document with no such line gives the empty list. A header gives the same result with
  one \<^verbatim>\<open>#\<close> as with two, at the start of the document and after any line break.
\<close>

theorem parseChangelog_one_version_per_header:
  "map version (parseChangelog md sid sname rd) = List.map_filter versionMatch (split_nl md) \<and>
   length (parseChangelog md sid sname rd) = length (filter (\<lambda>l. versionMatch l \<noteq> None) (split_nl md)) \<and>
   ((\<forall>l \<in> set (split_nl md). versionMatch l = None) \<longrightarrow> parseChangelog md sid sname rd = []) \<and>
   (\<not> startsWith r [35] \<longrightarrow>
      parseChangelog (35 # r) sid sname rd = parseChangelog (35 # 35 # r) sid sname rd \<and>
      parseChangelog (a @ 10 # 35 # r) sid sname rd = parseChangelog (a @ 10 # 35 # 35 # r) sid sname rd)"
proof -
  have v: "map version (parseChangelog md sid sname rd) = List.map_filter versionMatch (split_nl md)"
    by (simp add: parseChangelog_def parseLines_versions)
  have "length (parseChangelog md sid sname rd) = length (List.map_filter versionMatch (split_nl md))"
    using arg_cong [OF v, of length] by simp
  then have n: "length (parseChangelog md sid sname rd) =
      length (filter (\<lambda>l. versionMatch l \<noteq> None) (split_nl md))"
    by (simp add: List.map_filter_def)
  have e: "parseChangelog md sid sname rd = []" if "\<forall>l \<in> set (split_nl md). versionMatch l = None"
  proof -
    have "filter (\<lambda>l. versionMatch l \<noteq> None) (split_nl md) = []" using that by (simp add: filter_empty_conv)
    then show ?thesis using n by simp
  qed
  show ?thesis using v n e hash_document by blast
qed

theorem parseChangelog_one_version_per_header_witness:
  "map version (parseChangelog (js ''# 2.0.0\<newline>- new\<newline>## 1.0.0\<newline>text'') None None None) = [js ''2.0.0'', js ''1.0.0''] \<and>
   parseChangelog (js ''intro\<newline>- a bullet'') None None None = [] \<and>
   parseChangelog (js ''# 2.0.0 - 2024-01-12\<newline>- new'') None None None =
   parseChangelog (js ''## 2.0.0 - 2024-01-12\<newline>- new'') None None None"
proof -
  have 1: "List.map_filter versionMatch (split_nl (js ''# 2.0.0\<newline>- new\<newline>## 1.0.0\<newline>text'')) = [js ''2.0.0'', js ''1.0.0'']"
    by (simp add: js_def List.map_filter_simps eval_match eval_class)
  have 2: "\<forall>l \<in> set (split_nl (js ''intro\<newline>- a bullet'')). versionMatch l = None"
    by (simp add: js_def eval_match eval_class)
  have 3: "\<not> startsWith (js '' 2.0.0 - 2024-01-12\<newline>- new'') [35]"
    by (simp add: js_def)
  have 4: "35 # js '' 2.0.0 - 2024-01-12\<newline>- new'' = js ''# 2.0.0 - 2024-01-12\<newline>- new''"
       "35 # 35 # js '' 2.0.0 - 2024-01-12\<newline>- new'' = js ''## 2.0.0 - 2024-01-12\<newline>- new''"
    by (simp_all add: js_def)
  show ?thesis
    using parseChangelog_one_version_per_header [of "js ''# 2.0.0\<newline>- new\<newline>## 1.0.0\<newline>text''" None None None "[]" "[]"]
      parseChangelog_one_version_per_header [of "js ''intro\<newline>- a bullet''" None None None "[]" "[]"]
      parseChangelog_one_version_per_header [of "[]" None None None "js '' 2.0.0 - 2024-01-12\<newline>- new''" "[]"]
      1 2 3 4
    by simp
qed

section \<open>Items and skipped lines\<close>








section \<open>The latest version\<close>

lemma parsed_versions_nonempty:
  "v \<in> set (parseChangelog md sid sname rd) \<Longrightarrow> version v \<noteq> []"
proof -
  assume "v \<in> set (parseChangelog md sid sname rd)"
  then have "version v \<in> set (map version (parseChangelog md sid sname rd))" by simp
  then have "version v \<in> set (List.map_filter versionMatch (split_nl md))"
    by (simp only: parseChangelog_def parseLines_versions) simp
  then obtain l where "versionMatch l = Some (version v)"
    by (auto simp: List.map_filter_def)
  then show ?thesis using versionMatch_Some isVersionToken_nonempty by blast
qed

lemma getLatestVersion_cases:
  "getLatestVersion vs =
     (case vs of [] \<Rightarrow> js ''Unknown'' | v # rest \<Rightarrow> if version v = [] then js ''Unknown'' else version v)"
  by (cases vs) (simp_all add: getLatestVersion_def index0_def orElse_def)

lemma isParsedVersion_nonempty: "isParsedVersion v \<Longrightarrow> version v \<noteq> []"
  unfolding isParsedVersion_def using parsed_versions_nonempty by blast

text \<open>
  Claim C10. For every list of parsed versions \<open>getLatestVersion\<close> returns the version
  of the first element of the list, whatever versions follow it (no maximum is taken),
  and the literal "Unknown" for the empty list; so it does on every result of
  \<open>parseChangelog\<close>. Its result is never the empty string.
\<close>

theorem getLatestVersion_of_parsed:
  "((\<forall>p \<in> set vs. isParsedVersion p) \<longrightarrow>
      getLatestVersion vs = (case vs of [] \<Rightarrow> js ''Unknown'' | v # rest \<Rightarrow> version v)) \<and>
   getLatestVersion (parseChangelog md sid sname rd) =
     (case parseChangelog md sid sname rd of [] \<Rightarrow> js ''Unknown'' | v # rest \<Rightarrow> version v) \<and>
   getLatestVersion [] = js ''Unknown'' \<and>
   getLatestVersion vs \<noteq> []"
proof -
  have a: "getLatestVersion us = (case us of [] \<Rightarrow> js ''Unknown'' | v # rest \<Rightarrow> version v)"
    if "\<forall>p \<in> set us. isParsedVersion p" for us
  proof (cases us)
    case Nil
    then show ?thesis by (simp add: getLatestVersion_cases)
  next
    case (Cons v rest)
    then have "version v \<noteq> []" using that isParsedVersion_nonempty by simp
    then show ?thesis using Cons by (simp add: getLatestVersion_cases)
  qed
  have "\<forall>p \<in> set (parseChangelog md sid sname rd). isParsedVersion p"
    unfolding isParsedVersion_def by blast
  then have b: "getLatestVersion (parseChangelog md sid sname rd) =
     (case parseChangelog md sid sname rd of [] \<Rightarrow> js ''Unknown'' | v # rest \<Rightarrow> version v)"
    by (rule a)
  have u: "js ''Unknown'' \<noteq> []" by (simp add: js_def)
  have c: "getLatestVersion vs \<noteq> []"
    using u by (cases vs) (simp_all add: getLatestVersion_cases)
  show ?thesis using a b c by (simp add: getLatestVersion_cases)
qed

theorem getLatestVersion_of_parsed_witness:
  "getLatestVersion
     [\<lparr>version = js ''1.0.0'', date = [], items = [], sourceId = None, sourceName = None\<rparr>,
      \<lparr>version = js ''2.0.0'', date = [], items = [], sourceId = None, sourceName = None\<rparr>] = js ''1.0.0'' \<and>
   getLatestVersion (parseChangelog (js ''no header here'') None None None) = js ''Unknown''"
proof -
  let ?v1 = "\<lparr>version = js ''1.0.0'', date = [], items = [], sourceId = None, sourceName = None\<rparr>"
  let ?v2 = "\<lparr>version = js ''2.0.0'', date = [], items = [], sourceId = None, sourceName = None\<rparr>"
  have p: "parseChangelog (js ''# 1.0.0\<newline># 2.0.0'') None None None = [?v1, ?v2]"
    by (simp add: js_def eval_parse eval_match eval_class)
  have "?v1 \<in> set (parseChangelog (js ''# 1.0.0\<newline># 2.0.0'') None None None)"
       "?v2 \<in> set (parseChangelog (js ''# 1.0.0\<newline># 2.0.0'') None None None)"
    unfolding p by simp_all
  then have h: "\<forall>p \<in> set [?v1, ?v2]. isParsedVersion p"
    unfolding isParsedVersion_def by auto
  have e: "parseChangelog (js ''no header here'') None None None = []"
    by (simp add: js_def eval_parse eval_match eval_class)
  show ?thesis
    using getLatestVersion_of_parsed [of "[?v1, ?v2]" "js ''no header here''" None None None] h e
    by simp
qed

section \<open>Retries\<close>




section \<open>All active sources\<close>

lemma fetchOne_succeedsWith:
  "fetchOne reply s =
     map_option (\<lambda>m. \<lparr>fetchedId = id_src s, fetchedName = name s, markdown = m\<rparr>) (succeedsWith reply)"
  by (simp add: fetchOne_def succeedsWith_def ok_def split: settled.splits json.splits)

lemma fulfilled_all: "fulfilled (map (\<lambda>k. Fulfilled (f k)) ks) = Some (map f ks)"
  by (induction ks) simp_all

lemma run_invariant:
  fixes srcs :: "ChangelogSource list"
  defines "n \<equiv> length srcs"
  shows "let (tr, ts) = foldl (deliver net) (spawn srcs) sched in
           length ts = n \<and>
           (\<forall>k < n. ts ! k = (if k \<in> set sched then Fulfilled (fetchOne (net k) (srcs ! k))
                              else Pending (srcs ! k))) \<and>
           (\<exists>rest. tr = map (\<lambda>s. Requested (id_src s)) srcs @ rest \<and> list_all isSettled rest)"
proof (induction sched rule: rev_induct)
  case Nil
  show ?case by (simp add: spawn_def n_def)
next
  case (snoc k sched)
  obtain tr ts where st: "foldl (deliver net) (spawn srcs) sched = (tr, ts)"
    by (cases "foldl (deliver net) (spawn srcs) sched")
  with snoc have inv: "length ts = n"
      "\<forall>j < n. ts ! j = (if j \<in> set sched then Fulfilled (fetchOne (net j) (srcs ! j))
                         else Pending (srcs ! j))"
      "\<exists>rest. tr = map (\<lambda>s. Requested (id_src s)) srcs @ rest \<and> list_all isSettled rest"
    by auto
  from inv(3) obtain rest where
    rest: "tr = map (\<lambda>s. Requested (id_src s)) srcs @ rest" "list_all isSettled rest"
    by blast
  show ?case
  proof (cases "k < n")
    case False
    then have "deliver net (tr, ts) k = (tr, ts)" using inv(1) by (simp add: deliver_def)
    then show ?thesis using st inv False by auto
  next
    case True
    show ?thesis
    proof (cases "k \<in> set sched")
      case True
      then have "ts ! k = Fulfilled (fetchOne (net k) (srcs ! k))" using inv(2) \<open>k < n\<close> by simp
      then have "deliver net (tr, ts) k = (tr, ts)" using inv(1) \<open>k < n\<close> by (simp add: deliver_def)
      then show ?thesis using st inv True by auto
    next
      case False
      then have "ts ! k = Pending (srcs ! k)" using inv(2) \<open>k < n\<close> by simp
      then have d: "deliver net (tr, ts) k =
          (tr @ [Settled (id_src (srcs ! k))], ts[k := Fulfilled (fetchOne (net k) (srcs ! k))])"
        using inv(1) \<open>k < n\<close> by (simp add: deliver_def)
      have "tr @ [Settled (id_src (srcs ! k))] =
          map (\<lambda>s. Requested (id_src s)) srcs @ (rest @ [Settled (id_src (srcs ! k))])"
        using rest(1) by simp
      moreover have "list_all isSettled (rest @ [Settled (id_src (srcs ! k))])"
        using rest(2) by (simp add: isSettled_def)
      ultimately have "\<exists>rest'. tr @ [Settled (id_src (srcs ! k))] =
          map (\<lambda>s. Requested (id_src s)) srcs @ rest' \<and> list_all isSettled rest'" by blast
      then show ?thesis using st d inv(1,2) \<open>k < n\<close>
        by (auto simp: nth_list_update)
    qed
  qed
qed

lemma run_complete:
  assumes "\<forall>k < length srcs. k \<in> set sched"
  shows "snd (foldl (deliver net) (spawn srcs) sched) =
           map (\<lambda>k. Fulfilled (fetchOne (net k) (srcs ! k))) [0..<length srcs]"
proof -
  obtain tr ts where st: "foldl (deliver net) (spawn srcs) sched = (tr, ts)"
    by (cases "foldl (deliver net) (spawn srcs) sched")
  with run_invariant [of net srcs sched] have inv: "length ts = length srcs"
      "\<forall>k < length srcs. ts ! k = (if k \<in> set sched then Fulfilled (fetchOne (net k) (srcs ! k))
                                    else Pending (srcs ! k))"
    by auto
  have "ts = map (\<lambda>k. Fulfilled (fetchOne (net k) (srcs ! k))) [0..<length srcs]"
    using inv assms by (intro nth_equalityI) auto
  then show ?thesis using st by simp
qed

lemma run_trace:
  "\<exists>rest. fst (foldl (deliver net) (spawn srcs) sched) = map (\<lambda>s. Requested (id_src s)) srcs @ rest \<and>
          list_all isSettled rest"
proof -
  obtain tr ts where st: "foldl (deliver net) (spawn srcs) sched = (tr, ts)"
    by (cases "foldl (deliver net) (spawn srcs) sched")
  with run_invariant [of net srcs sched] show ?thesis by auto
qed

lemma fetchAll_fst:
  "fst (fetchAllActiveChangelogs sources net schedule) =
     fst (foldl (deliver net) (spawn (filter is_active sources)) schedule)"
  by (simp add: fetchAllActiveChangelogs_def Let_def split: prod.splits)

lemma fetchAll_snd:
  "snd (fetchAllActiveChangelogs sources net schedule) =
     map_option (List.map_filter (\<lambda>r. r))
       (fulfilled (snd (foldl (deliver net) (spawn (filter is_active sources)) schedule)))"
  by (simp add: fetchAllActiveChangelogs_def Let_def split: prod.splits)

lemma map_filter_id_map: "List.map_filter (\<lambda>r. r) (map f xs) = List.map_filter f xs"
  by (induction xs) (simp_all add: List.map_filter_simps split: option.splits)

lemma filter_requests:
  "list_all isSettled rest \<Longrightarrow>
     filter (\<lambda>e. \<not> isSettled e) (map (\<lambda>s. Requested (id_src s)) srcs @ rest) =
       map (\<lambda>s. Requested (id_src s)) srcs"
proof -
  assume "list_all isSettled rest"
  then have "filter (\<lambda>e. \<not> isSettled e) rest = []" by (simp add: list_all_iff filter_empty_conv)
  moreover have "filter (\<lambda>e. \<not> isSettled e) (map (\<lambda>s. Requested (id_src s)) srcs) =
      map (\<lambda>s. Requested (id_src s)) srcs"
    by (induction srcs) (simp_all add: isSettled_def)
  ultimately show ?thesis by simp
qed

text \<open>
  Claim C8. For every list of sources and every reply of the network to each request,
  \<open>fetchAllActiveChangelogs\<close> issues a request for the active sources only, and, once
  every reply has arrived, returns one entry for each active source whose fetch succeeds,
  in the order of the sources, with the source's id and name and the reply's markdown. A
  source whose fetch fails is left out, and the entry of a source that succeeds is in
  the result whatever the replies to the other sources are.
\<close>

theorem fetchAllActiveChangelogs_results:
  "filter (\<lambda>e. \<not> isSettled e) (fst (fetchAllActiveChangelogs sources net schedule)) =
     map (\<lambda>s. Requested (id_src s)) (filter is_active sources) \<and>
   ((\<forall>k < length (filter is_active sources). k \<in> set schedule) \<longrightarrow>
      snd (fetchAllActiveChangelogs sources net schedule) =
        Some (List.map_filter
                (\<lambda>k. map_option
                        (\<lambda>m. \<lparr>fetchedId = id_src (filter is_active sources ! k),
                               fetchedName = name (filter is_active sources ! k), markdown = m\<rparr>)
                        (succeedsWith (net k)))
                [0..<length (filter is_active sources)]) \<and>
      (\<forall>k m. k < length (filter is_active sources) \<and> succeedsWith (net k) = Some m \<longrightarrow>
         (\<exists>rs. snd (fetchAllActiveChangelogs sources net schedule) = Some rs \<and>
               \<lparr>fetchedId = id_src (filter is_active sources ! k),
                 fetchedName = name (filter is_active sources ! k), markdown = m\<rparr> \<in> set rs)))"
proof -
  let ?act = "filter is_active sources"
  let ?entry = "\<lambda>k. map_option
      (\<lambda>m. \<lparr>fetchedId = id_src (?act ! k), fetchedName = name (?act ! k), markdown = m\<rparr>)
      (succeedsWith (net k))"
  have req: "filter (\<lambda>e. \<not> isSettled e) (fst (fetchAllActiveChangelogs sources net schedule)) =
     map (\<lambda>s. Requested (id_src s)) ?act"
  proof -
    obtain rest where "fst (foldl (deliver net) (spawn ?act) schedule) =
        map (\<lambda>s. Requested (id_src s)) ?act @ rest" "list_all isSettled rest"
      using run_trace [of net ?act schedule] by blast
    then show ?thesis by (simp only: fetchAll_fst filter_requests)
  qed
  have res: "snd (fetchAllActiveChangelogs sources net schedule) =
      Some (List.map_filter ?entry [0..<length ?act])"
    if "\<forall>k < length ?act. k \<in> set schedule"
    by (simp add: fetchAll_snd run_complete [OF that] fulfilled_all map_filter_id_map
          fetchOne_succeedsWith)
  have mem: "\<lparr>fetchedId = id_src (?act ! k), fetchedName = name (?act ! k), markdown = m\<rparr>
      \<in> set (List.map_filter ?entry [0..<length ?act])"
    if "k < length ?act" "succeedsWith (net k) = Some m" for k m
  proof -
    have "k \<in> set [0..<length ?act]" using that by simp
    moreover have "?entry k =
        Some \<lparr>fetchedId = id_src (?act ! k), fetchedName = name (?act ! k), markdown = m\<rparr>"
      using that by simp
    ultimately show ?thesis unfolding List.map_filter_def by force
  qed
  show ?thesis using req res mem by blast
qed

theorem fetchAllActiveChangelogs_results_witness:
  "fetchAllActiveChangelogs
     [\<lparr>id_src = js ''a'', name = js ''A'', is_active = True\<rparr>,
      \<lparr>id_src = js ''b'', name = js ''B'', is_active = False\<rparr>,
      \<lparr>id_src = js ''c'', name = js ''C'', is_active = True\<rparr>,
      \<lparr>id_src = js ''d'', name = js ''D'', is_active = True\<rparr>]
     (\<lambda>k. if k = 0 then Rejected ''offline''
           else if k = 1 then Resolved \<lparr>status = 404, body = BadJson\<rparr>
           else Resolved \<lparr>status = 200, body = JsonData (js ''# 1.0.0'')\<rparr>)
     [2, 0, 1] =
   ([Requested (js ''a''), Requested (js ''c''), Requested (js ''d''),
     Settled (js ''d''), Settled (js ''a''), Settled (js ''c'')],
    Some [\<lparr>fetchedId = js ''d'', fetchedName = js ''D'', markdown = js ''# 1.0.0''\<rparr>])"
proof -
  let ?sources = "[\<lparr>id_src = js ''a'', name = js ''A'', is_active = True\<rparr>,
      \<lparr>id_src = js ''b'', name = js ''B'', is_active = False\<rparr>,
      \<lparr>id_src = js ''c'', name = js ''C'', is_active = True\<rparr>,
      \<lparr>id_src = js ''d'', name = js ''D'', is_active = True\<rparr>]"
  let ?net = "\<lambda>k::nat. if k = 0 then Rejected ''offline''
           else if k = 1 then Resolved \<lparr>status = 404, body = BadJson\<rparr>
           else Resolved \<lparr>status = 200, body = JsonData (js ''# 1.0.0'')\<rparr>"
  have h: "\<forall>k < length (filter is_active ?sources). k \<in> set [2, 0, 1::nat]"
    by (auto simp: less_Suc_eq)
  have t: "fst (fetchAllActiveChangelogs ?sources ?net [2, 0, 1]) =
      [Requested (js ''a''), Requested (js ''c''), Requested (js ''d''),
       Settled (js ''d''), Settled (js ''a''), Settled (js ''c'')]"
    by (simp add: fetchAllActiveChangelogs_def spawn_def deliver_def)
  have "snd (fetchAllActiveChangelogs ?sources ?net [2, 0, 1]) =
      Some [\<lparr>fetchedId = js ''d'', fetchedName = js ''D'', markdown = js ''# 1.0.0''\<rparr>]"
    using fetchAllActiveChangelogs_results [of ?sources ?net "[2, 0, 1]"] h
    by (simp add: succeedsWith_def List.map_filter_simps upt_rec)
  with t show ?thesis by (simp add: prod_eq_iff)
qed

text \<open>
  The browser helper issues the requests of all active sources, in the order of the
  sources, before it handles any reply; what follows these requests in its trace is the
  handling of replies.
\<close>

lemma fetchAllActiveChangelogs_requests_first:
  "take (length (filter is_active sources)) (fst (fetchAllActiveChangelogs sources net schedule)) =
     map (\<lambda>s. Requested (id_src s)) (filter is_active sources) \<and>
   list_all isSettled
     (drop (length (filter is_active sources)) (fst (fetchAllActiveChangelogs sources net schedule)))"
proof -
  let ?act = "filter is_active sources"
  obtain rest where r: "fst (fetchAllActiveChangelogs sources net schedule) =
      map (\<lambda>s. Requested (id_src s)) ?act @ rest" "list_all isSettled rest"
    using run_trace [of net ?act schedule] by (auto simp: fetchAll_fst)
  then show ?thesis by simp
qed

section \<open>Sources of a sweep, one after the other\<close>










section \<open>The date of a header\<close>

lemma search_SomeD: "search m s = Some g \<Longrightarrow> \<exists>t. m t = Some g"
  by (induction s) (auto split: option.splits)

lemma digit_not_space: "isDigit c \<Longrightarrow> \<not> isSpace c"
  by (auto simp: isDigit_def isSpace_def)

lemma word_not_space: "isWord c \<Longrightarrow> \<not> isSpace c"
  by (auto simp: isWord_def isLower_def isUpper_def isDigit_def isSpace_def)

lemma trim_id:
  assumes "d \<noteq> []" "\<not> isSpace (hd d)" "\<not> isSpace (last d)"
  shows "trim d = d"
proof -
  have "dropWhile isSpace d = d" using assms(1,2) by (cases d) auto
  moreover have "dropWhile isSpace (rev d) = rev d"
    using assms(1,3) by (cases "rev d") (auto simp: hd_rev [symmetric])
  ultimately show ?thesis by (simp add: trim_def)
qed

lemma accepts_Times:
  "accepts (Times p n) u t \<longleftrightarrow> list_all p u \<and> length u = n"
  by auto

lemma accepts_Seq_tail: "accepts (Seq a b) u t \<Longrightarrow> \<exists>m y. u = m @ y \<and> accepts b y t"
  by auto

lemma accepts_isoDate:
  assumes "accepts isoDate d t"
  shows "d \<noteq> [] \<and> isDigit (hd d) \<and> isDigit (last d)"
proof -
  from assms obtain a r where a: "d = a @ r" "list_all isDigit a" "length a = 4" "accepts (Seq (Chr 45) (Seq (Times isDigit 2) (Seq (Chr 45) (Times isDigit 2)))) r t"
    unfolding accepts.simps(2) [of "Times isDigit 4"] accepts_Times by blast
  from accepts_Seq_tail [OF a(4)] obtain m1 r1 where
      r1: "r = m1 @ r1" "accepts (Seq (Times isDigit 2) (Seq (Chr 45) (Times isDigit 2))) r1 t" by blast
  from accepts_Seq_tail [OF r1(2)] obtain m2 r2 where
      r2: "r1 = m2 @ r2" "accepts (Seq (Chr 45) (Times isDigit 2)) r2 t" by blast
  from accepts_Seq_tail [OF r2(2)] obtain m3 c where
      r3: "r2 = m3 @ c" "accepts (Times isDigit 2) c t" by blast
  have c: "r = (m1 @ m2 @ m3) @ c" "list_all isDigit c" "length c = 2"
    using r1(1) r2(1) r3 by (simp_all only: accepts_Times append_assoc)
  have "a \<noteq> []" "c \<noteq> []" using a(3) c(3) by auto
  then have "hd d = hd a" "last d = last c" using a(1) c(1) by auto
  moreover have "isDigit (hd a)" "isDigit (last c)"
    using a(2) c(2) \<open>a \<noteq> []\<close> \<open>c \<noteq> []\<close> by (auto simp: list_all_iff)
  ultimately show ?thesis using a(1) \<open>a \<noteq> []\<close> by simp
qed

lemma accepts_monthDate:
  assumes "accepts monthDate d t"
  shows "d \<noteq> [] \<and> isWord (hd d) \<and> isDigit (last d)"
proof -
  from assms obtain w r where w: "d = w @ r" "w \<noteq> []" "list_all isWord w"
      "accepts (Seq (Plus isSpace) (Seq (Plus isDigit)
                           (Seq (Rep (\<lambda>c. c = 44) 0 (Some 1)) (Seq (Star isSpace) (Times isDigit 4))))) r t"
    unfolding accepts.simps(2) [of "Plus isWord"] accepts_Plus by blast
  from accepts_Seq_tail [OF w(4)] obtain m1 r1 where
      r1: "r = m1 @ r1" "accepts (Seq (Plus isDigit)
                           (Seq (Rep (\<lambda>c. c = 44) 0 (Some 1)) (Seq (Star isSpace) (Times isDigit 4)))) r1 t" by blast
  from accepts_Seq_tail [OF r1(2)] obtain m2 r2 where
      r2: "r1 = m2 @ r2" "accepts (Seq (Rep (\<lambda>c. c = 44) 0 (Some 1)) (Seq (Star isSpace) (Times isDigit 4))) r2 t" by blast
  from accepts_Seq_tail [OF r2(2)] obtain m3 r3 where
      r3: "r2 = m3 @ r3" "accepts (Seq (Star isSpace) (Times isDigit 4)) r3 t" by blast
  from accepts_Seq_tail [OF r3(2)] obtain m4 y where
      r4: "r3 = m4 @ y" "accepts (Times isDigit 4) y t" by blast
  have y: "r = (m1 @ m2 @ m3 @ m4) @ y" "list_all isDigit y" "length y = 4"
    using r1(1) r2(1) r3(1) r4 by (simp_all only: accepts_Times append_assoc)
  have "y \<noteq> []" using y(3) by auto
  then have "hd d = hd w" "last d = last y" using w(1,2) y(1) by auto
  moreover have "isWord (hd w)" "isDigit (last y)"
    using w(2,3) y(2) \<open>y \<noteq> []\<close> by (auto simp: list_all_iff)
  ultimately show ?thesis using w(1,2) by simp
qed

lemma dateInParensMatch_nonempty: "dateInParensMatch line = Some d \<Longrightarrow> d \<noteq> []"
proof -
  assume "dateInParensMatch line = Some d"
  then obtain s where "exec1 (Chr 40) isoDate (Seq (Chr 41) (Seq (Star isSpace) EndOfInput)) s = Some d"
    unfolding dateInParensMatch_def by (blast dest: search_SomeD)
  from exec1_captures [OF this] obtain t where "accepts isoDate d t" by blast
  then show ?thesis using accepts_isoDate by blast
qed

lemma dateAfterDashMatch_trim: "dateAfterDashMatch line = Some d \<Longrightarrow> trim d = d \<and> d \<noteq> []"
proof -
  assume "dateAfterDashMatch line = Some d"
  then obtain s where "exec1 (Seq (Rep isDashClass 1 (Some 1)) (Star isSpace)) (Alt isoDate monthDate) Nothing s = Some d"
    unfolding dateAfterDashMatch_def by (blast dest: search_SomeD)
  from exec1_captures [OF this] obtain t where "accepts (Alt isoDate monthDate) d t" by blast
  then have "accepts isoDate d t \<or> accepts monthDate d t" by (simp only: accepts.simps(3))
  then have "d \<noteq> [] \<and> \<not> isSpace (hd d) \<and> \<not> isSpace (last d)"
    using accepts_isoDate accepts_monthDate digit_not_space word_not_space by blast
  then show ?thesis using trim_id by blast
qed

text \<open>
  The order of the rules: the date in parentheses, else the date after a character of the
  dash class, else the entry of the table when there is a table and an entry, else the
  empty string. The first two captures are never empty and trimming changes nothing, so
  the table is consulted exactly when neither pattern matches.
\<close>

lemma headerDate_rules:
  "headerDate line v rd =
     (case dateInParensMatch line of
        Some d \<Rightarrow> d
      | None \<Rightarrow>
          (case dateAfterDashMatch line of
             Some d \<Rightarrow> d
           | None \<Rightarrow>
               (case rd of
                  None \<Rightarrow> []
                | Some table \<Rightarrow> (case table v of None \<Rightarrow> [] | Some d \<Rightarrow> d))))"
proof (cases "dateInParensMatch line")
  case (Some d)
  then show ?thesis using dateInParensMatch_nonempty [OF Some]
    by (cases rd) (simp_all add: headerDate_def)
next
  case None
  show ?thesis
  proof (cases "dateAfterDashMatch line")
    case (Some d)
    then show ?thesis using None dateAfterDashMatch_trim [OF Some]
      by (cases rd) (simp_all add: headerDate_def)
  next
    case N: None
    show ?thesis using None N by (cases rd) (simp_all add: headerDate_def orElse_def split: option.splits)
  qed
qed

text \<open>
  Claim C4, on the code. The three examples of the claim come out as it says: the date
  after the hyphen, the date in parentheses, and the empty string for a header with
  neither and no table. With an en-dash (U+2013) in place of the hyphen the date of rule
  (b) is not found and the date is the empty string: the class of the pattern holds the
  three characters of a wrongly decoded en-dash, not the en-dash.
\<close>

theorem headerDate_examples:
  "headerDate (js ''## 1.0.50 - 2024-01-12'') (js ''1.0.50'') None = js ''2024-01-12'' \<and>
   headerDate (js ''# [2.3.0](url) (2026-01-05)'') (js ''2.3.0'') None = js ''2026-01-05'' \<and>
   headerDate (js ''## 1.0.50'') (js ''1.0.50'') None = [] \<and>
   headerDate (js ''## 1.0.50 '' @ [8211] @ js '' 2024-01-12'') (js ''1.0.50'') None = [] \<and>
   headerDate (js ''## 1.0.50 '' @ [8211] @ js '' January 12, 2024'') (js ''1.0.50'') None = []"
  by (simp add: js_def eval_match eval_class)

text \<open>
  Claim C5, on the code. A header line with a date right after an en-dash (U+2013), or
  after an en-dash and a space, and no date in parentheses gets the empty date from
  \<open>parseChangelog\<close>; the same line with a hyphen gets the date.
\<close>

theorem en_dash_date_not_extracted:
  "parseChangelog (js ''## 1.0.50 '' @ [8211] @ js ''2024-01-12'') None None None =
     [\<lparr>version = js ''1.0.50'', date = [], items = [], sourceId = None, sourceName = None\<rparr>] \<and>
   parseChangelog (js ''## 1.0.50 '' @ [8211] @ js '' 2024-01-12'') None None None =
     [\<lparr>version = js ''1.0.50'', date = [], items = [], sourceId = None, sourceName = None\<rparr>] \<and>
   parseChangelog (js ''## 1.0.50 - 2024-01-12'') None None None =
     [\<lparr>version = js ''1.0.50'', date = js ''2024-01-12'', items = [], sourceId = None, sourceName = None\<rparr>]"
  by (simp add: js_def eval_parse eval_match eval_class)

end
